theory Spec2Isabelle
  imports Complex_Main "HOL-Library.Multiset"
begin

section \<open>Values shared by the summarizer and the question-answering loop\<close>

text \<open>
  A Python \<open>str\<close> is a sequence of Unicode code points; a code point is a natural number.
  Literals of the source are ASCII and are written \<open>ascii ''...''\<close>.
\<close>

type_synonym pystr = "nat list"

definition ascii :: "string \<Rightarrow> pystr" where
  "ascii s = map of_char s"

text \<open>
  The exceptions the modelled code can raise. \<open>ExternalError\<close> is whatever an external
  collaborator (the summarization chain, the answering backend) raises.
\<close>

datatype error =
    IndexError
  | ZeroDivisionError
  | ValueError
  | KeyError pystr
  | TypeError
  | EOFError
  | FileExistsError
  | FileNotFoundError
  | IsADirectoryError
  | JSONDecodeError
  | ExternalError pystr

section \<open>Time bucketing: \<open>YoutubeSummarize._divide_chunks_by_time\<close>\<close>

text \<open>
  Modelled from the spec: the class \<open>TranscriptChunkModel\<close> of \<open>yts/types.py\<close>, which is
  not among the sources. The spec gives a chunk the fields id, text, start and duration;
  the source reads \<open>text\<close>, \<open>start\<close> and \<open>duration\<close>. Times are Python floats in the
  program. Every finite float is a rational number, and the model computes on rationals
  exactly: the rounding of float addition and division, infinities and NaN are left out.
\<close>

record TranscriptChunkModel =
  tc_id :: pystr
  tc_text :: pystr
  start :: rat
  duration :: rat

text \<open>
  \<open>self.chunks[-1].start + self.chunks[-1].duration\<close>: the last element of an empty list
  does not exist, and the subscript raises \<open>IndexError\<close>.
\<close>

definition total_time :: "TranscriptChunkModel list \<Rightarrow> error + rat" where
  "total_time chunks =
     (case chunks of
        [] \<Rightarrow> Inl IndexError
      | _ # _ \<Rightarrow> Inr (start (last chunks) + duration (last chunks)))"

text \<open>Python's \<open>a // b\<close> on floats: the floor of the quotient, as a float; zero divisor raises.\<close>

definition floordiv :: "rat \<Rightarrow> rat \<Rightarrow> error + rat" where
  "floordiv a b = (if b = 0 then Inl ZeroDivisionError else Inr (of_int \<lfloor>a / b\<rfloor>))"

text \<open>
  Lines 122 and 123: \<open>idx = int(tc.start // delta)\<close>, then
  \<open>idx = idx if idx < split_num else split_num\<close>.
\<close>

definition bucket_index :: "int \<Rightarrow> rat \<Rightarrow> TranscriptChunkModel \<Rightarrow> error + int" where
  "bucket_index split_num delta tc =
     (case floordiv (start tc) delta of
        Inl e \<Rightarrow> Inl e
      | Inr q \<Rightarrow> (let idx = \<lfloor>q\<rfloor> in Inr (if idx < split_num then idx else split_num)))"

text \<open>
  \<open>splited_chunks[idx].append(tc)\<close>: a Python subscript counts a negative index from the
  end of the list and raises \<open>IndexError\<close> outside \<open>-len .. len - 1\<close>.
\<close>

definition append_at :: "'a list list \<Rightarrow> int \<Rightarrow> 'a \<Rightarrow> error + 'a list list" where
  "append_at xss i x =
     (let n = int (length xss);
          j = (if i < 0 then n + i else i)
      in if 0 \<le> j \<and> j < n then Inr (xss[nat j := xss ! nat j @ [x]]) else Inl IndexError)"

text \<open>The body of the loop, lines 122 to 126, on the list of buckets built so far.\<close>

definition place ::
  "int \<Rightarrow> rat \<Rightarrow> TranscriptChunkModel list list \<Rightarrow> TranscriptChunkModel
     \<Rightarrow> error + TranscriptChunkModel list list" where
  "place split_num delta splited_chunks tc =
     (case bucket_index split_num delta tc of
        Inl e \<Rightarrow> Inl e
      | Inr idx \<Rightarrow>
          append_at
            (if idx + 1 > int (length splited_chunks) then splited_chunks @ [[]]
             else splited_chunks)
            idx tc)"

text \<open>The loop \<open>for tc in self.chunks\<close>; an exception in the body ends it.\<close>

fun fill ::
  "int \<Rightarrow> rat \<Rightarrow> TranscriptChunkModel list list \<Rightarrow> TranscriptChunkModel list
     \<Rightarrow> error + TranscriptChunkModel list list" where
  "fill split_num delta splited_chunks [] = Inr splited_chunks"
| "fill split_num delta splited_chunks (tc # tcs) =
     (case place split_num delta splited_chunks tc of
        Inl e \<Rightarrow> Inl e
      | Inr splited_chunks' \<Rightarrow> fill split_num delta splited_chunks' tcs)"

text \<open>
  The whole method. \<open>[[] for _ in range(0, split_num)]\<close> makes \<open>split_num\<close> separate empty
  lists, none for a negative \<open>split_num\<close>.
\<close>

definition divide_chunks_by_time ::
  "TranscriptChunkModel list \<Rightarrow> int \<Rightarrow> error + TranscriptChunkModel list list" where
  "divide_chunks_by_time chunks split_num =
     (case total_time chunks of
        Inl e \<Rightarrow> Inl e
      | Inr tt \<Rightarrow>
          (case floordiv tt (of_int split_num) of
             Inl e \<Rightarrow> Inl e
           | Inr delta \<Rightarrow>
               (case fill split_num delta (replicate (nat split_num) []) chunks of
                  Inl e \<Rightarrow> Inl e
                | Inr splited_chunks \<Rightarrow>
                    Inr (filter (\<lambda>sc. length sc > 0) splited_chunks))))"

text \<open>A chunk with the given start and duration, for the concrete inputs below.\<close>

definition chunk_at :: "rat \<Rightarrow> rat \<Rightarrow> TranscriptChunkModel" where
  "chunk_at s d = \<lparr>tc_id = [], tc_text = [], start = s, duration = d\<rparr>"




text \<open>Concrete chunk lists: six chunks over 11 seconds, two chunks over 3 seconds,
  ten chunks ending at 90 seconds, and ten chunks starting at 0, 10, ..., 90 seconds.\<close>

definition overflow_chunks :: "TranscriptChunkModel list" where
  "overflow_chunks =
     [chunk_at 0 2, chunk_at 2 2, chunk_at 4 2, chunk_at 6 2, chunk_at 8 2, chunk_at 10 1]"




section \<open>The file system, the environment and JSON documents\<close>

text \<open>
  The part of the file system the program touches: the text files with their contents and
  the directories, both by path. Files hold text; the encoding of the text on disk and
  access rights are left out.
\<close>

record fs =
  files :: "pystr \<rightharpoonup> pystr"
  dirs :: "pystr set"

text \<open>\<open>os.path.isdir\<close> and \<open>os.path.exists\<close>.\<close>

definition isdir :: "fs \<Rightarrow> pystr \<Rightarrow> bool" where
  "isdir f p = (p \<in> dirs f)"

definition path_exists :: "fs \<Rightarrow> pystr \<Rightarrow> bool" where
  "path_exists f p = (p \<in> dirs f \<or> files f p \<noteq> None)"

text \<open>
  \<open>os.path.dirname\<close> on POSIX: the path up to its last slash (code point 47), without
  the trailing slashes unless it consists of slashes only.
\<close>

definition dirname :: "pystr \<Rightarrow> pystr" where
  "dirname p =
     (let head = rev (dropWhile (\<lambda>c. c \<noteq> 47) (rev p))
      in if head \<noteq> [] \<and> \<not> list_all (\<lambda>c. c = 47) head
         then rev (dropWhile (\<lambda>c. c = 47) (rev head))
         else head)"

text \<open>
  \<open>os.makedirs(d)\<close> raises when \<open>d\<close> is empty or exists already and creates the directory
  otherwise; the directories above it are not tracked.
\<close>

definition makedirs :: "fs \<Rightarrow> pystr \<Rightarrow> error + fs" where
  "makedirs f d =
     (if d = [] then Inl FileNotFoundError
      else if path_exists f d then Inl FileExistsError
      else Inr (f\<lparr>dirs := insert d (dirs f)\<rparr>))"

text \<open>
  \<open>with open(p, "w") as f: f.write(content)\<close> replaces the whole content of the file;
  \<open>with open(p, 'r') as f\<close> and reading it gives the content back. Opening a directory
  raises, and so does reading a file that does not exist.
\<close>

definition write_file :: "fs \<Rightarrow> pystr \<Rightarrow> pystr \<Rightarrow> error + fs" where
  "write_file f p content =
     (if isdir f p then Inl IsADirectoryError
      else Inr (f\<lparr>files := (files f)(p \<mapsto> content)\<rparr>))"

definition read_file :: "fs \<Rightarrow> pystr \<Rightarrow> error + pystr" where
  "read_file f p =
     (if isdir f p then Inl IsADirectoryError
      else case files f p of None \<Rightarrow> Inl FileNotFoundError | Some content \<Rightarrow> Inr content)"

text \<open>\<open>os.environ[key]\<close>: the process environment is a dictionary of strings.\<close>

type_synonym environ = "pystr \<rightharpoonup> pystr"

definition environ_get :: "environ \<Rightarrow> pystr \<Rightarrow> error + pystr" where
  "environ_get env key = (case env key of None \<Rightarrow> Inl (KeyError key) | Some v \<Rightarrow> Inr v)"

definition store_dir_key :: pystr where
  "store_dir_key = ascii ''SUMMARY_STORE_DIR''"

text \<open>
  The values \<open>json.load\<close> can return and \<open>json.dumps\<close> accepts. A dictionary is the list
  of its items in insertion order, with every key once.
\<close>

datatype json =
    JStr pystr
  | JList "json list"
  | JObj "(pystr \<times> json) list"
  | JNumber rat
  | JBool bool
  | JNull

text \<open>
  The standard library the program calls is a parameter of the model:
  \<open>json_dumps ensure_ascii obj\<close> is \<open>json.dumps(obj, ensure_ascii=...)\<close>, \<open>json_loads\<close> parses
  a document (\<open>json.load\<close> of a file is \<open>json_loads\<close> of its content), and \<open>py_str\<close> is
  \<open>str()\<close> on the values that are not strings.
\<close>

record pylib =
  json_dumps :: "bool \<Rightarrow> json \<Rightarrow> pystr"
  json_loads :: "pystr \<Rightarrow> error + json"
  py_str :: "json \<Rightarrow> pystr"



section \<open>The summarizer: \<open>YoutubeSummarize\<close>\<close>

text \<open>
  The fields of the object. \<open>self.llm\<close> is not a field here: the summarization chain built
  from it is a parameter of \<open>run\<close>.
\<close>

record YoutubeSummarize =
  vid :: pystr
  debug :: bool
  url :: pystr
  title :: pystr
  summary_file :: pystr
  chain_type :: pystr
  chunks :: "TranscriptChunkModel list"

text \<open>
  \<open>__init__\<close>: an empty video id raises \<open>ValueError\<close>, a missing \<open>SUMMARY_STORE_DIR\<close>
  raises \<open>KeyError\<close>. Setting up the language model is left to the environment.
\<close>

definition init :: "environ \<Rightarrow> pystr \<Rightarrow> bool \<Rightarrow> error + YoutubeSummarize" where
  "init env v dbg =
     (if v = [] then Inl ValueError
      else case environ_get env store_dir_key of
             Inl e \<Rightarrow> Inl e
           | Inr d \<Rightarrow>
               Inr \<lparr>vid = v, debug = dbg,
                    url = ascii ''https://www.youtube.com/watch?v='' @ v,
                    title = [],
                    summary_file = d @ ascii ''/'' @ v,
                    chain_type = ascii ''map_reduce'',
                    chunks = []\<rparr>)"

text \<open>
  \<open>prepare\<close> stores the title and the chunks that the video and transcript services and
  the chunk divider return; these are given.
\<close>

definition prepare ::
  "YoutubeSummarize \<Rightarrow> pystr \<Rightarrow> TranscriptChunkModel list \<Rightarrow> YoutubeSummarize" where
  "prepare ys video_title transcript_chunks =
     ys\<lparr>title := video_title, chunks := transcript_chunks\<rparr>"

text \<open>
  What \<open>run\<close> acts on: the summarization chain, whose state \<open>'c\<close> is its own and whose
  answer to a list of documents is a string or an exception; the file system; and the
  record of what the run did to the outside, in order: each chain invocation with its
  documents and outcome, and each \<open>time.sleep\<close> with its seconds.
\<close>

datatype event = Invoke "pystr list" "error + pystr" | Sleep nat

record 'c world =
  chain_state :: 'c
  filesystem :: fs
  trace :: "event list"

type_synonym 'c chain = "'c \<Rightarrow> pystr list \<Rightarrow> (error + pystr) \<times> 'c"

text \<open>
  \<open>loop.run_until_complete(asyncio.gather(chain.arun(docs)))[0]\<close>: the one task is run to
  its end, and its exception, if any, is raised.
\<close>

definition arun :: "'c chain \<Rightarrow> pystr list \<Rightarrow> 'c world \<Rightarrow> (error + pystr) \<times> 'c world" where
  "arun chain docs w =
     (case chain (chain_state w) docs of
        (r, c') \<Rightarrow> (r, w\<lparr>chain_state := c', trace := trace w @ [Invoke docs r]\<rparr>))"

text \<open>Lines 94 to 100: the loop over the buckets, \<open>idx\<close> counting them.\<close>

fun detail_loop ::
  "'c chain \<Rightarrow> nat \<Rightarrow> TranscriptChunkModel list list \<Rightarrow> pystr list \<Rightarrow> 'c world
     \<Rightarrow> (error + pystr list) \<times> 'c world" where
  "detail_loop chain idx [] detail_summary w = (Inr detail_summary, w)"
| "detail_loop chain idx (bucket # rest) detail_summary w =
     (let w1 = (if idx > 0 then w\<lparr>trace := trace w @ [Sleep 3]\<rparr> else w)
      in case arun chain (map tc_text bucket) w1 of
           (Inl e, w2) \<Rightarrow> (Inl e, w2)
         | (Inr s, w2) \<Rightarrow> detail_loop chain (Suc idx) rest (detail_summary @ [s]) w2)"

text \<open>The dictionary of lines 102 to 107.\<close>

definition summary_dict :: "YoutubeSummarize \<Rightarrow> pystr list \<Rightarrow> pystr \<Rightarrow> json" where
  "summary_dict ys detail_summary concise_summary =
     JObj [(ascii ''url'', JStr (url ys)),
           (ascii ''title'', JStr (title ys)),
           (ascii ''detail'', JList (map JStr detail_summary)),
           (ascii ''concise'', JStr concise_summary)]"

text \<open>
  Lines 109 to 112: make the directory of the summary file if it is none, then write the
  document. The file system is returned also when a step raises.
\<close>

definition save_summary :: "pylib \<Rightarrow> fs \<Rightarrow> pystr \<Rightarrow> json \<Rightarrow> (error + unit) \<times> fs" where
  "save_summary lib f path summary =
     (case (if \<not> isdir f (dirname path) then makedirs f (dirname path) else Inr f) of
        Inl e \<Rightarrow> (Inl e, f)
      | Inr f1 \<Rightarrow>
          (case write_file f1 path (json_dumps lib False summary) of
             Inl e \<Rightarrow> (Inl e, f1)
           | Inr f2 \<Rightarrow> (Inr (), f2)))"

text \<open>\<open>run\<close>, with \<open>_divide_chunks_by_time(5)\<close> in its middle.\<close>

definition run ::
  "'c chain \<Rightarrow> pylib \<Rightarrow> YoutubeSummarize \<Rightarrow> 'c world \<Rightarrow> (error + json) \<times> 'c world" where
  "run chain lib ys w =
     (case arun chain (map tc_text (chunks ys)) w of
        (Inl e, w1) \<Rightarrow> (Inl e, w1)
      | (Inr concise_summary, w1) \<Rightarrow>
          (case divide_chunks_by_time (chunks ys) 5 of
             Inl e \<Rightarrow> (Inl e, w1)
           | Inr splited_chunks \<Rightarrow>
               (case detail_loop chain 0 splited_chunks [] w1 of
                  (Inl e, w2) \<Rightarrow> (Inl e, w2)
                | (Inr detail_summary, w2) \<Rightarrow>
                    (let summary = summary_dict ys detail_summary concise_summary
                     in case save_summary lib (filesystem w2) (summary_file ys) summary of
                          (Inl e, f) \<Rightarrow> (Inl e, w2\<lparr>filesystem := f\<rparr>)
                        | (Inr _, f) \<Rightarrow> (Inr summary, w2\<lparr>filesystem := f\<rparr>)))))"

text \<open>The chain invocations among the events, each with its documents and outcome.\<close>

fun invocations :: "event list \<Rightarrow> (pystr list \<times> (error + pystr)) list" where
  "invocations [] = []"
| "invocations (Invoke docs r # evs) = (docs, r) # invocations evs"
| "invocations (Sleep n # evs) = invocations evs"

section \<open>The question-answering session: \<open>qa\<close>\<close>

text \<open>
  \<open>str.strip()\<close> removes the white space at both ends; these are the code points Python
  counts as white space.
\<close>

definition py_isspace :: "nat \<Rightarrow> bool" where
  "py_isspace c =
     (c \<in> {9, 10, 11, 12, 13, 28, 29, 30, 31, 32, 133, 160, 5760, 8232, 8233, 8239, 8287, 12288}
      \<or> (8192 \<le> c \<and> c \<le> 8202))"

definition strip :: "pystr \<Rightarrow> pystr" where
  "strip s = rev (dropWhile py_isspace (rev (dropWhile py_isspace s)))"

text \<open>
  Lines 20 to 22: the stored summary of the video, if a file or directory of that path
  exists; \<open>None\<close> when nothing does.
\<close>

definition load_summary :: "pylib \<Rightarrow> environ \<Rightarrow> fs \<Rightarrow> pystr \<Rightarrow> error + json option" where
  "load_summary lib env f v =
     (case environ_get env store_dir_key of
        Inl e \<Rightarrow> Inl e
      | Inr d \<Rightarrow>
          (if path_exists f (d @ ascii ''/'' @ v)
           then (case read_file f (d @ ascii ''/'' @ v) of
                   Inl e \<Rightarrow> Inl e
                 | Inr content \<Rightarrow>
                     (case json_loads lib content of
                        Inl e \<Rightarrow> Inl e
                      | Inr summary \<Rightarrow> Inr (Some summary)))
           else Inr None))"


text \<open>
  The answering backend \<open>YoutubeQA\<close> is not among the sources. Its state \<open>'s\<close> is its own;
  \<open>run_query\<close> answers a query or raises, and \<open>get_source\<close> lists the passages of the last
  answer as score, id, time and text, each as it prints.
\<close>

record 's backend =
  run_query :: "'s \<Rightarrow> pystr \<Rightarrow> (error + pystr) \<times> 's"
  get_source :: "'s \<Rightarrow> (pystr \<times> pystr \<times> pystr \<times> pystr) list"

text \<open>Line 35, \<open>print(f"--- {time} ({id} [{score}]) ---\n {source}")\<close>.\<close>

definition source_line :: "pystr \<times> pystr \<times> pystr \<times> pystr \<Rightarrow> pystr" where
  "source_line x =
     (case x of
        (score, ident, time, source) \<Rightarrow>
          ascii ''--- '' @ time @ ascii '' ('' @ ident @ ascii '' ['' @ score @ ascii '']) ---''
            @ [10, 32] @ source @ [10])"

text \<open>
  The loop of lines 25 to 36 by its control points: at \<open>input\<close> (line 26), in the answering
  part with the stripped query (lines 29 to 36), after \<open>break\<close>, and left by an exception.
  The configuration holds the control point, the backend, the lines still to be read from
  the standard input, the standard output, and the queries handed to \<open>run_query\<close> so far.
\<close>

datatype pc = AwaitingQuery | Answering pystr | Terminated | Aborted error

record 's qa_conf =
  pc :: pc
  yqa :: 's
  stdin :: "pystr list"
  stdout :: "pystr list"
  asked :: "pystr list"

text \<open>
  One step. \<open>input("Query: ")\<close> prints the prompt and takes the next line, and raises
  \<open>EOFError\<close> when there is none.
\<close>

definition qa_step :: "'s backend \<Rightarrow> bool \<Rightarrow> 's qa_conf \<Rightarrow> 's qa_conf" where
  "qa_step be detail c =
     (case pc c of
        AwaitingQuery \<Rightarrow>
          (case stdin c of
             [] \<Rightarrow> c\<lparr>pc := Aborted EOFError, stdout := stdout c @ [ascii ''Query: '']\<rparr>
           | line # rest \<Rightarrow>
               (let query = strip line
                in if query = []
                   then c\<lparr>pc := Terminated, stdin := rest,
                          stdout := stdout c @ [ascii ''Query: '']\<rparr>
                   else c\<lparr>pc := Answering query, stdin := rest,
                          stdout := stdout c @ [ascii ''Query: '']\<rparr>))
      | Answering query \<Rightarrow>
          (case run_query be (yqa c) query of
             (Inl e, s') \<Rightarrow>
               c\<lparr>pc := Aborted e, yqa := s',
                 stdout := stdout c @ [ascii ''Answer: ''],
                 asked := asked c @ [query]\<rparr>
           | (Inr answer, s') \<Rightarrow>
               c\<lparr>pc := AwaitingQuery, yqa := s',
                 stdout := stdout c @ [ascii ''Answer: '', answer @ [10, 10]]
                   @ (if detail then map source_line (get_source be s') @ [[10]] else []),
                 asked := asked c @ [query]\<rparr>)
      | Terminated \<Rightarrow> c
      | Aborted e \<Rightarrow> c)"

text \<open>The loop runs steps until it is left.\<close>

fun running :: "pc \<Rightarrow> bool" where
  "running AwaitingQuery = True"
| "running (Answering query) = True"
| "running Terminated = False"
| "running (Aborted e) = False"

fun steps_left :: "pc \<Rightarrow> nat \<Rightarrow> nat" where
  "steps_left AwaitingQuery n = 2 * n + 2"
| "steps_left (Answering query) n = 2 * n + 3"
| "steps_left Terminated n = 0"
| "steps_left (Aborted e) n = 0"

function qa_loop :: "'s backend \<Rightarrow> bool \<Rightarrow> 's qa_conf \<Rightarrow> 's qa_conf" where
  "qa_loop be detail c = (if running (pc c) then qa_loop be detail (qa_step be detail c) else c)"
  by pat_completeness auto
termination
proof (relation "measure (\<lambda>(be, detail, c). steps_left (pc c) (length (stdin c)))")
  show "wf (measure (\<lambda>(be, detail, c). steps_left (pc c) (length (stdin c))))"
    by simp
next
  fix be :: "'s backend" and detail :: bool and c :: "'s qa_conf"
  assume "running (pc c)"
  then have "steps_left (pc (qa_step be detail c)) (length (stdin (qa_step be detail c)))
               < steps_left (pc c) (length (stdin c))"
    by (cases "pc c")
       (auto simp: qa_step_def Let_def split: list.splits prod.splits sum.splits)
  then show "((be, detail, qa_step be detail c), (be, detail, c))
               \<in> measure (\<lambda>(be, detail, c). steps_left (pc c) (length (stdin c)))"
    by simp
qed

declare qa_loop.simps [simp del]


text \<open>
  The spec's words for the loop (section 4.5), kept apart from the code: the state machine
  \<open>AwaitingQuery -> (empty input) -> Terminated\<close> and
  \<open>AwaitingQuery -> (non-empty input) -> Answering -> AwaitingQuery\<close>. \<open>spec_of\<close> reads the
  state off a control point of the code (none for a loop left by an exception), and
  \<open>event_of\<close> is the event a configuration offers: the kind of the next input line as the
  code tests it, after stripping, or the answer being given.
\<close>

datatype spec_state = SpecAwaitingQuery | SpecAnswering | SpecTerminated

datatype spec_event = EmptyInput | NonEmptyInput | Answered

fun spec_next :: "spec_state \<Rightarrow> spec_event \<Rightarrow> spec_state option" where
  "spec_next SpecAwaitingQuery EmptyInput = Some SpecTerminated"
| "spec_next SpecAwaitingQuery NonEmptyInput = Some SpecAnswering"
| "spec_next SpecAnswering Answered = Some SpecAwaitingQuery"
| "spec_next s ev = None"

fun spec_of :: "pc \<Rightarrow> spec_state option" where
  "spec_of AwaitingQuery = Some SpecAwaitingQuery"
| "spec_of (Answering query) = Some SpecAnswering"
| "spec_of Terminated = Some SpecTerminated"
| "spec_of (Aborted e) = None"

definition event_of :: "'s qa_conf \<Rightarrow> spec_event option" where
  "event_of c =
     (case pc c of
        AwaitingQuery \<Rightarrow>
          (case stdin c of
             [] \<Rightarrow> None
           | line # rest \<Rightarrow> Some (if strip line = [] then EmptyInput else NonEmptyInput))
      | Answering query \<Rightarrow> Some Answered
      | Terminated \<Rightarrow> None
      | Aborted e \<Rightarrow> None)"

section \<open>Concrete runs\<close>

text \<open>
  A transcript of five chunks of one second each with the texts A to E; a chain that
  answers with the documents joined, and one that raises on its fourth invocation; an
  environment with the store directory \<open>store\<close>; the summarizer of the video \<open>v\<close> after
  \<open>prepare\<close>; the summary the first chain gives; a library that knows this one document;
  an empty file system; a backend that answers every query; and three configurations of
  the question loop.
\<close>

definition spoken_chunks :: "TranscriptChunkModel list" where
  "spoken_chunks =
     map (\<lambda>i. \<lparr>tc_id = ascii ''v-'' @ [48 + i], tc_text = [65 + i],
               start = of_nat i, duration = 1\<rparr>) [0..<5]"

definition echo_chain :: "nat chain" where
  "echo_chain n docs = (Inr (concat docs), Suc n)"

definition flaky_chain :: "nat chain" where
  "flaky_chain n docs =
     (if n = 3 then Inl (ExternalError (ascii ''rate limit'')) else Inr (concat docs), Suc n)"

definition demo_env :: environ where
  "demo_env = Map.empty(store_dir_key \<mapsto> ascii ''store'')"

definition demo_ys :: YoutubeSummarize where
  "demo_ys =
     \<lparr>vid = ascii ''v'', debug = False, url = ascii ''https://www.youtube.com/watch?v=v'',
      title = ascii ''T'', summary_file = ascii ''store/v'', chain_type = ascii ''map_reduce'',
      chunks = spoken_chunks\<rparr>"

definition demo_summary :: json where
  "demo_summary =
     summary_dict demo_ys [ascii ''A'', ascii ''B'', ascii ''C'', ascii ''D'', ascii ''E'']
       (ascii ''ABCDE'')"

definition demo_lib :: pylib where
  "demo_lib =
     \<lparr>json_dumps = (\<lambda>ensure_ascii obj. if obj = demo_summary then ascii ''{summary}'' else []),
      json_loads = (\<lambda>s. if s = ascii ''{summary}'' then Inr demo_summary else Inl JSONDecodeError),
      py_str = (\<lambda>v. [])\<rparr>"

definition empty_fs :: fs where
  "empty_fs = \<lparr>files = Map.empty, dirs = {}\<rparr>"

definition demo_world :: "nat world" where
  "demo_world = \<lparr>chain_state = 0, filesystem = empty_fs, trace = []\<rparr>"

definition echo_backend :: "nat backend" where
  "echo_backend =
     \<lparr>run_query = (\<lambda>s query. (Inr (ascii ''re: '' @ query), Suc s)),
      get_source = (\<lambda>s. [(ascii ''0.9'', ascii ''v-0'', ascii ''0:00'', ascii ''A'')])\<rparr>"

definition blank_conf :: "nat qa_conf" where
  "blank_conf =
     \<lparr>pc = AwaitingQuery, yqa = 0, stdin = [ascii ''  '', ascii ''late''], stdout = [],
      asked = []\<rparr>"

definition query_conf :: "nat qa_conf" where
  "query_conf =
     \<lparr>pc = AwaitingQuery, yqa = 0, stdin = [ascii '' hi '', [], ascii ''late''], stdout = [],
      asked = []\<rparr>"

definition answering_conf :: "nat qa_conf" where
  "answering_conf =
     \<lparr>pc = Answering (ascii ''hi''), yqa = 0, stdin = [[], ascii ''late''],
      stdout = [ascii ''Query: ''], asked = []\<rparr>"

section \<open>Bucketing keeps every chunk exactly once\<close>

lemma update_append_mset:
  assumes k: "k < length xss"
  shows "mset (concat (xss[k := xss ! k @ [x]])) = mset (concat xss) + {#x#}"
proof -
  have "mset (concat (xss[k := xss ! k @ [x]])) =
        mset (concat (take k xss @ (xss ! k @ [x]) # drop (Suc k) xss))"
    using k by (simp add: upd_conv_take_nth_drop)
  also have "\<dots> = mset (concat (take k xss @ xss ! k # drop (Suc k) xss)) + {#x#}"
    by simp
  also have "take k xss @ xss ! k # drop (Suc k) xss = xss"
    using k by (simp add: id_take_nth_drop [symmetric])
  finally show ?thesis .
qed

lemma append_at_mset:
  assumes "append_at xss i x = Inr yss"
  shows "mset (concat yss) = mset (concat xss) + {#x#}"
proof -
  define j where "j = (if i < 0 then int (length xss) + i else i)"
  from assms have j: "0 \<le> j" "j < int (length xss)"
    and yss: "yss = xss[nat j := xss ! nat j @ [x]]"
    by (auto simp: append_at_def Let_def j_def split: if_splits)
  from j have "nat j < length xss" by simp
  then show ?thesis
    unfolding yss by (rule update_append_mset)
qed

lemma place_mset:
  assumes "place split_num delta xss tc = Inr yss"
  shows "mset (concat yss) = mset (concat xss) + {#tc#}"
  using assms
  by (auto simp: place_def split: sum.splits if_splits dest!: append_at_mset)

lemma fill_mset:
  "fill split_num delta xss tcs = Inr yss \<Longrightarrow> mset (concat yss) = mset (concat xss) + mset tcs"
proof (induction tcs arbitrary: xss)
  case Nil
  then show ?case by simp
next
  case (Cons tc tcs)
  then show ?case
    by (auto split: sum.splits dest!: place_mset)
qed

lemma concat_filter_nonempty: "concat (filter (\<lambda>sc. length sc > 0) xss) = concat xss"
  by (induction xss) auto

lemma divide_mset:
  assumes "divide_chunks_by_time cs split_num = Inr buckets"
  shows "mset (concat buckets) = mset cs"
proof -
  from assms obtain delta splited where
    f: "fill split_num delta (replicate (nat split_num) []) cs = Inr splited"
    and b: "buckets = filter (\<lambda>sc. length sc > 0) splited"
    by (auto simp: divide_chunks_by_time_def split: sum.splits)
  have "concat (replicate n ([]::TranscriptChunkModel list)) = []" for n
    by (induction n) auto
  with fill_mset [OF f] have "mset (concat splited) = mset cs"
    by simp
  then show ?thesis
    unfolding b concat_filter_nonempty .
qed

lemma distinct_concat_disjoint:
  assumes d: "distinct (concat xss)" and ij: "i < j" and j: "j < length xss"
  shows "set (xss ! i) \<inter> set (xss ! j) = {}"
proof -
  have "xss = take j xss @ xss ! j # drop (Suc j) xss"
    using j by (rule id_take_nth_drop)
  with d have "distinct (concat (take j xss @ xss ! j # drop (Suc j) xss))"
    by simp
  then have disj: "set (concat (take j xss)) \<inter> set (xss ! j) = {}"
    by auto
  have "xss ! i \<in> set (take j xss)"
    using ij j by (metis length_take min.absorb2 less_imp_le nth_take nth_mem)
  then have "set (xss ! i) \<subseteq> set (concat (take j xss))"
    by auto
  with disj show ?thesis by blast
qed

lemma mset_eq_distinct:
  assumes "mset xs = mset ys" and "distinct ys"
  shows "distinct xs"
  using assms by (metis mset_eq_imp_distinct_iff)

text \<open>
  C2. Whenever bucketing returns, the returned buckets together hold the input cs, each
  as often as the input does: the chunk counts of the buckets sum to the number of input
  cs, and cs that are pairwise different in the input occur once in all the
  buckets together, so that no two buckets share a chunk.
\<close>

theorem C2_bucketing_keeps_chunks:
  assumes "divide_chunks_by_time cs split_num = Inr buckets"
  shows "mset (concat buckets) = mset cs
       \<and> sum_list (map length buckets) = length cs
       \<and> (distinct cs \<longrightarrow>
            distinct (concat buckets)
          \<and> (\<forall>i j. i < j \<and> j < length buckets
                 \<longrightarrow> set (buckets ! i) \<inter> set (buckets ! j) = {}))"
proof -
  have m: "mset (concat buckets) = mset cs"
    using assms by (rule divide_mset)
  have "length (concat buckets) = length cs"
    using m by (metis size_mset)
  then have s: "sum_list (map length buckets) = length cs"
    by (simp add: length_concat)
  have d: "distinct (concat buckets)" if "distinct cs"
    using m that by (rule mset_eq_distinct)
  show ?thesis
    using m s d distinct_concat_disjoint by blast
qed

lemma overflow_divide:
  "divide_chunks_by_time overflow_chunks 5 =
     Inr [[chunk_at 0 2], [chunk_at 2 2], [chunk_at 4 2], [chunk_at 6 2], [chunk_at 8 2],
          [chunk_at 10 1]]"
  by code_simp

lemma overflow_distinct: "distinct overflow_chunks"
  by code_simp

theorem C2_bucketing_keeps_chunks_witness:
  "divide_chunks_by_time overflow_chunks 5 =
     Inr [[chunk_at 0 2], [chunk_at 2 2], [chunk_at 4 2], [chunk_at 6 2], [chunk_at 8 2],
          [chunk_at 10 1]]
   \<and> distinct overflow_chunks
   \<and> mset (concat [[chunk_at 0 2], [chunk_at 2 2], [chunk_at 4 2], [chunk_at 6 2],
                     [chunk_at 8 2], [chunk_at 10 1]]) = mset overflow_chunks
   \<and> sum_list (map length [[chunk_at 0 2], [chunk_at 2 2], [chunk_at 4 2], [chunk_at 6 2],
                     [chunk_at 8 2], [chunk_at 10 1]]) = length overflow_chunks
   \<and> distinct (concat [[chunk_at 0 2], [chunk_at 2 2], [chunk_at 4 2], [chunk_at 6 2],
                     [chunk_at 8 2], [chunk_at 10 1]])
   \<and> set [chunk_at 0 2] \<inter> set [chunk_at 10 1] = {}"
proof -
  let ?bs = "[[chunk_at 0 2], [chunk_at 2 2], [chunk_at 4 2], [chunk_at 6 2], [chunk_at 8 2],
          [chunk_at 10 1]]"
  note r = C2_bucketing_keeps_chunks [OF overflow_divide]
  from r have m: "mset (concat ?bs) = mset overflow_chunks" by blast
  from r have l: "sum_list (map length ?bs) = length overflow_chunks" by blast
  from r overflow_distinct have d: "distinct (concat ?bs)" by blast
  from r overflow_distinct have "(0::nat) < 5 \<and> 5 < length ?bs \<longrightarrow> set (?bs ! 0) \<inter> set (?bs ! 5) = {}"
    by blast
  then have i: "set [chunk_at 0 2] \<inter> set [chunk_at 10 1] = {}" by simp
  show ?thesis
    using overflow_divide overflow_distinct m l d i by blast
qed

section \<open>Which bucket a chunk goes to\<close>












section \<open>Where bucketing raises\<close>














section \<open>Ten chunks, five buckets of 18 seconds\<close>









section \<open>A run of the summarizer\<close>

lemma arun_effect:
  assumes "arun chain docs w = (r, w')"
  shows "trace w' = trace w @ [Invoke docs r]" and "filesystem w' = filesystem w"
  using assms by (auto simp: arun_def split: prod.splits)

lemma detail_loop_effect:
  assumes "detail_loop chain idx buckets acc w = (r, w')"
  shows "filesystem w' = filesystem w
     \<and> (\<exists>new. trace w' = trace w @ new
          \<and> (\<forall>docs e. Invoke docs (Inl e) \<in> set new
                \<longrightarrow> r = Inl e \<and> last new = Invoke docs (Inl e) \<and> new \<noteq> [])
          \<and> (\<forall>detail_summary. r = Inr detail_summary
                \<longrightarrow> length detail_summary = length acc + length buckets
                  \<and> take (length acc) detail_summary = acc
                  \<and> invocations new =
                      map2 (\<lambda>bucket s. (map tc_text bucket, Inr s)) buckets
                        (drop (length acc) detail_summary)))"
  using assms
proof (induction buckets arbitrary: idx acc w)
  case Nil
  then show ?case by auto
next
  case (Cons bucket rest)
  define w1 where "w1 = (if idx > 0 then w\<lparr>trace := trace w @ [Sleep 3]\<rparr> else w)"
  obtain r1 w2 where a: "arun chain (map tc_text bucket) w1 = (r1, w2)"
    by (cases "arun chain (map tc_text bucket) w1")
  have fs1: "filesystem w1 = filesystem w"
    by (simp add: w1_def)
  obtain pre where pre: "trace w1 = trace w @ pre" "invocations pre = []"
    "\<forall>docs e. Invoke docs (Inl e) \<notin> set pre"
    by (cases "idx > 0") (auto simp: w1_def)
  note t2 = arun_effect [OF a]
  show ?case
  proof (cases r1)
    case (Inl e)
    with Cons.prems a have r: "r = Inl e" "w' = w2"
      by (auto simp: w1_def Let_def)
    let ?new = "pre @ [Invoke (map tc_text bucket) (Inl e)]"
    have tr: "trace w' = trace w @ ?new"
      using t2 pre r Inl by simp
    have b: "\<forall>docs e'. Invoke docs (Inl e') \<in> set ?new
        \<longrightarrow> r = Inl e' \<and> last ?new = Invoke docs (Inl e') \<and> ?new \<noteq> []"
      using pre(3) r by auto
    have f: "filesystem w' = filesystem w"
      using r t2 fs1 by simp
    show ?thesis
      using f tr b r by (intro conjI exI [of _ ?new]) auto
  next
    case (Inr s)
    with Cons.prems a have d: "detail_loop chain (Suc idx) rest (acc @ [s]) w2 = (r, w')"
      by (auto simp: w1_def Let_def)
    from Cons.IH [OF d] obtain new where
      f: "filesystem w' = filesystem w2"
      and n: "trace w' = trace w2 @ new"
      and bad: "\<forall>docs e. Invoke docs (Inl e) \<in> set new
                \<longrightarrow> r = Inl e \<and> last new = Invoke docs (Inl e) \<and> new \<noteq> []"
      and good: "\<forall>detail_summary. r = Inr detail_summary
                \<longrightarrow> length detail_summary = length (acc @ [s]) + length rest
                  \<and> take (length (acc @ [s])) detail_summary = acc @ [s]
                  \<and> invocations new =
                      map2 (\<lambda>bucket s. (map tc_text bucket, Inr s)) rest
                        (drop (length (acc @ [s])) detail_summary)"
      by blast
    let ?ev = "Invoke (map tc_text bucket) (Inr s)"
    let ?new = "pre @ ?ev # new"
    have inv_app: "invocations (xs @ ys) = invocations xs @ invocations ys" for xs ys
      by (induction xs rule: invocations.induct) auto
    have tr: "trace w' = trace w @ ?new"
      using n t2 pre Inr by simp
    have b: "\<forall>docs e. Invoke docs (Inl e) \<in> set ?new
                \<longrightarrow> r = Inl e \<and> last ?new = Invoke docs (Inl e) \<and> ?new \<noteq> []"
      using bad pre(3) by auto
    have g: "length ds = length acc + length (bucket # rest)
           \<and> take (length acc) ds = acc
           \<and> invocations ?new =
               map2 (\<lambda>bucket s. (map tc_text bucket, Inr s)) (bucket # rest) (drop (length acc) ds)"
      if "r = Inr ds" for ds
    proof -
      from good that have l: "length ds = length (acc @ [s]) + length rest"
        and t: "take (length (acc @ [s])) ds = acc @ [s]"
        and i: "invocations new = map2 (\<lambda>bucket s. (map tc_text bucket, Inr s)) rest
                        (drop (length (acc @ [s])) ds)"
        by blast+
      from t have t': "take (Suc (length acc)) ds = acc @ [s]" by simp
      have la: "length acc < length ds" using l by simp
      have ta: "take (length acc) ds = acc"
        using t' by (metis append_eq_conv_conj length_append_singleton take_Suc_conv_app_nth la butlast_snoc butlast_take diff_Suc_1 less_imp_le_nat)
      have nth: "ds ! length acc = s"
        using t' la by (metis nth_append_length nth_take lessI)
      have dr: "drop (length acc) ds = s # drop (Suc (length acc)) ds"
        using la nth by (metis Cons_nth_drop_Suc)
      show ?thesis
        using l ta i dr pre(2) by (simp add: inv_app)
    qed
    show ?thesis
      using f t2(2) fs1 tr b g by (intro conjI exI [of _ ?new]) auto
  qed
qed

lemma run_effect:
  assumes "run chain lib ys w = (r, w')"
  shows "\<exists>new. trace w' = trace w @ new
     \<and> (\<forall>docs e. Invoke docs (Inl e) \<in> set new
           \<longrightarrow> r = Inl e \<and> last new = Invoke docs (Inl e) \<and> new \<noteq> []
             \<and> filesystem w' = filesystem w)
     \<and> (\<forall>summary. r = Inr summary
           \<longrightarrow> (\<exists>buckets detail_summary concise_summary.
                  divide_chunks_by_time (chunks ys) 5 = Inr buckets
                \<and> summary = summary_dict ys detail_summary concise_summary
                \<and> length detail_summary = length buckets
                \<and> invocations new =
                    (map tc_text (chunks ys), Inr concise_summary)
                      # map2 (\<lambda>bucket s. (map tc_text bucket, Inr s)) buckets detail_summary
                \<and> save_summary lib (filesystem w) (summary_file ys) summary
                    = (Inr (), filesystem w')))"
proof -
  obtain r1 w1 where a: "arun chain (map tc_text (chunks ys)) w = (r1, w1)"
    by (cases "arun chain (map tc_text (chunks ys)) w")
  note t1 = arun_effect [OF a]
  let ?e1 = "Invoke (map tc_text (chunks ys)) r1"
  show ?thesis
  proof (cases r1)
    case (Inl e)
    with assms a have "r = Inl e" "w' = w1"
      by (auto simp: run_def)
    then show ?thesis
      using t1 Inl by (intro exI [of _ "[?e1]"]) auto
  next
    case concise: (Inr concise_summary)
    show ?thesis
    proof (cases "divide_chunks_by_time (chunks ys) 5")
      case (Inl e)
      with assms a concise have "r = Inl e" "w' = w1"
        by (auto simp: run_def)
      then show ?thesis
        using t1 concise by (intro exI [of _ "[?e1]"]) auto
    next
      case buckets: (Inr buckets)
      obtain r2 w2 where d: "detail_loop chain 0 buckets [] w1 = (r2, w2)"
        by (cases "detail_loop chain 0 buckets [] w1")
      from detail_loop_effect [OF d] obtain new where
        f2: "filesystem w2 = filesystem w1"
        and n2: "trace w2 = trace w1 @ new"
        and bad: "\<forall>docs e. Invoke docs (Inl e) \<in> set new
                \<longrightarrow> r2 = Inl e \<and> last new = Invoke docs (Inl e) \<and> new \<noteq> []"
        and good: "\<forall>detail_summary. r2 = Inr detail_summary
                \<longrightarrow> length detail_summary = length buckets
                  \<and> invocations new =
                      map2 (\<lambda>bucket s. (map tc_text bucket, Inr s)) buckets detail_summary"
        by auto
      let ?new = "?e1 # new"
      show ?thesis
      proof (cases r2)
        case (Inl e)
        with assms a concise buckets d have rw: "r = Inl e" "w' = w2"
          by (auto simp: run_def)
        have tr: "trace w' = trace w @ ?new"
          using rw n2 t1 by simp
        have "\<forall>docs e'. Invoke docs (Inl e') \<in> set ?new
           \<longrightarrow> r = Inl e' \<and> last ?new = Invoke docs (Inl e') \<and> ?new \<noteq> []
             \<and> filesystem w' = filesystem w"
          using bad rw Inl concise f2 t1 by auto
        then show ?thesis
          using tr rw by (intro exI [of _ ?new]) auto
      next
        case detail: (Inr detail_summary)
        let ?summary = "summary_dict ys detail_summary concise_summary"
        obtain r3 f3 where s: "save_summary lib (filesystem w2) (summary_file ys) ?summary = (r3, f3)"
          by (cases "save_summary lib (filesystem w2) (summary_file ys) ?summary")
        from assms a concise buckets d detail s have w': "w' = w2\<lparr>filesystem := f3\<rparr>"
          and r: "r = (case r3 of Inl e \<Rightarrow> Inl e | Inr _ \<Rightarrow> Inr ?summary)"
          by (auto simp: run_def Let_def split: sum.splits)
        have tr: "trace w' = trace w @ ?new"
          using w' n2 t1 by simp
        have nobad: "\<forall>docs e. Invoke docs (Inl e) \<notin> set ?new"
          using bad detail concise by auto
        have ok: "\<exists>buckets detail_summary concise_summary.
                  divide_chunks_by_time (chunks ys) 5 = Inr buckets
                \<and> summary = summary_dict ys detail_summary concise_summary
                \<and> length detail_summary = length buckets
                \<and> invocations ?new =
                    (map tc_text (chunks ys), Inr concise_summary)
                      # map2 (\<lambda>bucket s. (map tc_text bucket, Inr s)) buckets detail_summary
                \<and> save_summary lib (filesystem w) (summary_file ys) summary
                    = (Inr (), filesystem w')"
          if "r = Inr summary" for summary
        proof -
          from that r have r3: "r3 = Inr ()" and sm: "summary = ?summary"
            by (auto split: sum.splits)
          have "save_summary lib (filesystem w) (summary_file ys) summary = (Inr (), filesystem w')"
            using s r3 sm f2 t1(2) w' by simp
          then show ?thesis
            using buckets sm good detail concise by auto
        qed
        show ?thesis
          using tr nobad ok by (intro exI [of _ ?new]) auto
      qed
    qed
  qed
qed

text \<open>
  C4. When an invocation of the summarization chain raises during a run, be it the one for
  the concise summary or one for a bucket of the detail summary, the run ends with that
  exception: it returns no summary, the failed invocation is the last thing it did, and the
  file system is as it was before the run, so no summary file was created or changed.
\<close>

theorem C4_failed_chain_writes_nothing:
  assumes "run chain lib ys w = (r, w')"
    and "Invoke docs (Inl e) \<in> set (drop (length (trace w)) (trace w'))"
  shows "r = Inl e \<and> filesystem w' = filesystem w \<and> last (trace w') = Invoke docs (Inl e)"
proof -
  from run_effect [OF assms(1)] obtain new where
    tr: "trace w' = trace w @ new"
    and bad: "\<forall>docs e. Invoke docs (Inl e) \<in> set new
           \<longrightarrow> r = Inl e \<and> last new = Invoke docs (Inl e) \<and> new \<noteq> []
             \<and> filesystem w' = filesystem w"
    by blast
  from assms(2) tr have "Invoke docs (Inl e) \<in> set new" by simp
  with bad have "r = Inl e" "last new = Invoke docs (Inl e)" "new \<noteq> []"
    "filesystem w' = filesystem w"
    by blast+
  then show ?thesis
    using tr by simp
qed



lemma init_demo: "init demo_env (ascii ''v'') False = Inr (demo_ys\<lparr>title := [], chunks := []\<rparr>)"
  by (simp add: init_def demo_env_def environ_get_def demo_ys_def ascii_def)

lemma prepare_demo:
  "prepare (demo_ys\<lparr>title := [], chunks := []\<rparr>) (ascii ''T'') spoken_chunks = demo_ys"
  by (simp add: prepare_def demo_ys_def)

lemma spoken_explicit:
  "spoken_chunks =
    [\<lparr>tc_id = ascii ''v-0'', tc_text = ascii ''A'', start = 0, duration = 1\<rparr>,
     \<lparr>tc_id = ascii ''v-1'', tc_text = ascii ''B'', start = 1, duration = 1\<rparr>,
     \<lparr>tc_id = ascii ''v-2'', tc_text = ascii ''C'', start = 2, duration = 1\<rparr>,
     \<lparr>tc_id = ascii ''v-3'', tc_text = ascii ''D'', start = 3, duration = 1\<rparr>,
     \<lparr>tc_id = ascii ''v-4'', tc_text = ascii ''E'', start = 4, duration = 1\<rparr>]"
  by code_simp

lemma spoken_divide:
  "divide_chunks_by_time spoken_chunks 5 = Inr (map (\<lambda>tc. [tc]) spoken_chunks)"
  by code_simp

lemma demo_strings:
  "ascii ''A'' @ ascii ''B'' @ ascii ''C'' @ ascii ''D'' @ ascii ''E'' = ascii ''ABCDE''"
  "dirname (ascii ''store/v'') = ascii ''store''"
  "ascii ''store/v'' \<noteq> ascii ''store''"
  "ascii ''store'' \<noteq> []"
  by (simp_all add: ascii_def dirname_def)

lemma demo_save:
  "save_summary demo_lib empty_fs (ascii ''store/v'') demo_summary =
     (Inr (), \<lparr>files = Map.empty(ascii ''store/v'' \<mapsto> ascii ''{summary}''),
               dirs = {ascii ''store''}\<rparr>)"
  by (simp add: save_summary_def demo_strings isdir_def makedirs_def path_exists_def
        write_file_def empty_fs_def demo_lib_def)

lemma echo_run:
  "run echo_chain demo_lib demo_ys demo_world =
     (Inr demo_summary,
      \<lparr>chain_state = 6,
       filesystem = \<lparr>files = Map.empty(ascii ''store/v'' \<mapsto> ascii ''{summary}''),
                     dirs = {ascii ''store''}\<rparr>,
       trace = [Invoke (map tc_text spoken_chunks) (Inr (ascii ''ABCDE'')),
                Invoke [ascii ''A''] (Inr (ascii ''A'')), Sleep 3,
                Invoke [ascii ''B''] (Inr (ascii ''B'')), Sleep 3,
                Invoke [ascii ''C''] (Inr (ascii ''C'')), Sleep 3,
                Invoke [ascii ''D''] (Inr (ascii ''D'')), Sleep 3,
                Invoke [ascii ''E''] (Inr (ascii ''E''))]\<rparr>)"
proof -
  have c: "chunks demo_ys = spoken_chunks" and sf: "summary_file demo_ys = ascii ''store/v''"
    by (simp_all add: demo_ys_def)
  have s: "summary_dict demo_ys [ascii ''A'', ascii ''B'', ascii ''C'', ascii ''D'', ascii ''E'']
       (ascii ''ABCDE'') = demo_summary"
    by (simp add: demo_summary_def)
  show ?thesis
    unfolding run_def c sf spoken_divide
    by (simp add: spoken_explicit arun_def echo_chain_def demo_world_def demo_strings s demo_save)
qed

lemma flaky_run:
  "run flaky_chain demo_lib demo_ys demo_world =
     (Inl (ExternalError (ascii ''rate limit'')),
      \<lparr>chain_state = 4,
       filesystem = empty_fs,
       trace = [Invoke (map tc_text spoken_chunks) (Inr (ascii ''ABCDE'')),
                Invoke [ascii ''A''] (Inr (ascii ''A'')), Sleep 3,
                Invoke [ascii ''B''] (Inr (ascii ''B'')), Sleep 3,
                Invoke [ascii ''C''] (Inl (ExternalError (ascii ''rate limit'')))]\<rparr>)"
proof -
  have c: "chunks demo_ys = spoken_chunks"
    by (simp add: demo_ys_def)
  show ?thesis
    unfolding run_def c spoken_divide
    by (simp add: spoken_explicit arun_def flaky_chain_def demo_world_def demo_strings)
qed

theorem C4_failed_chain_writes_nothing_witness:
  "run flaky_chain demo_lib demo_ys demo_world
     = (Inl (ExternalError (ascii ''rate limit'')), snd (run flaky_chain demo_lib demo_ys demo_world))
   \<and> Invoke [ascii ''C''] (Inl (ExternalError (ascii ''rate limit'')))
       \<in> set (drop (length (trace demo_world))
                (trace (snd (run flaky_chain demo_lib demo_ys demo_world))))
   \<and> filesystem (snd (run flaky_chain demo_lib demo_ys demo_world)) = filesystem demo_world
   \<and> last (trace (snd (run flaky_chain demo_lib demo_ys demo_world)))
       = Invoke [ascii ''C''] (Inl (ExternalError (ascii ''rate limit'')))"
proof -
  let ?w = "snd (run flaky_chain demo_lib demo_ys demo_world)"
  let ?e = "ExternalError (ascii ''rate limit'')"
  have h1: "run flaky_chain demo_lib demo_ys demo_world = (Inl ?e, ?w)"
    by (simp add: flaky_run)
  have l: "drop (length (trace demo_world)) evs = evs" for evs :: "event list"
    by (simp add: demo_world_def)
  have h2: "Invoke [ascii ''C''] (Inl ?e) \<in> set (drop (length (trace demo_world)) (trace ?w))"
    unfolding l by (simp add: flaky_run)
  show ?thesis
    using C4_failed_chain_writes_nothing [OF h1 h2] h1 h2 by simp
qed



lemma save_then_load:
  assumes e: "env store_dir_key = Some d"
    and s: "save_summary lib f (d @ ascii ''/'' @ v) summary = (Inr (), f')"
    and rt: "json_loads lib (json_dumps lib False summary) = Inr summary"
  shows "load_summary lib env f' v = Inr (Some summary)"
    and "files f' (d @ ascii ''/'' @ v) = Some (json_dumps lib False summary)"
proof -
  let ?p = "d @ ascii ''/'' @ v"
  from s obtain f1 where w: "write_file f1 ?p (json_dumps lib False summary) = Inr f'"
    by (auto simp: save_summary_def split: sum.splits if_splits)
  then have nd: "\<not> isdir f1 ?p"
    and f': "f' = f1\<lparr>files := (files f1)(?p \<mapsto> json_dumps lib False summary)\<rparr>"
    by (auto simp: write_file_def split: if_splits)
  show c: "files f' ?p = Some (json_dumps lib False summary)"
    by (simp add: f')
  have "\<not> isdir f' ?p"
    using nd by (simp add: f' isdir_def)
  moreover have "path_exists f' ?p"
    using c by (simp add: path_exists_def)
  ultimately show "load_summary lib env f' v = Inr (Some summary)"
    using e c rt by (simp add: load_summary_def environ_get_def read_file_def)
qed

lemma init_summary_file:
  assumes "init env v dbg = Inr ys"
  shows "\<exists>d. env store_dir_key = Some d \<and> summary_file ys = d @ ascii ''/'' @ v"
  using assms
  by (auto simp: init_def environ_get_def split: if_splits option.splits)

text \<open>
  C6. For the summarizer of a video id and any summary document that \<open>json.loads\<close> maps
  back from its \<open>json.dumps(..., ensure_ascii=False)\<close> text: after the document is saved
  (lines 109 to 112, alone or at the end of a run), the file of the video id holds exactly
  that text, whatever it held before, and the question-answering session of the same video
  id under the same environment loads a document equal to the one saved.
\<close>

theorem C6_saved_summary_loads_back:
  assumes i: "init env v dbg = Inr ys"
    and rt: "json_loads lib (json_dumps lib False summary) = Inr summary"
  shows "(save_summary lib f (summary_file ys) summary = (Inr (), f')
            \<longrightarrow> load_summary lib env f' v = Inr (Some summary)
              \<and> files f' (summary_file ys) = Some (json_dumps lib False summary))
       \<and> (run chain lib (prepare ys video_title transcript_chunks) w = (Inr summary, w')
            \<longrightarrow> load_summary lib env (filesystem w') v = Inr (Some summary)
              \<and> files (filesystem w') (summary_file ys) = Some (json_dumps lib False summary))"
proof -
  from init_summary_file [OF i] obtain d where
    e: "env store_dir_key = Some d" and p: "summary_file ys = d @ ascii ''/'' @ v"
    by blast
  have a: "load_summary lib env g' v = Inr (Some summary)
         \<and> files g' (summary_file ys) = Some (json_dumps lib False summary)"
    if "save_summary lib g (summary_file ys) summary = (Inr (), g')" for g g'
    using save_then_load [where env = env and d = d and v = v and f = g and f' = g', OF e _ rt]
      that p by simp
  have b: "save_summary lib (filesystem w) (summary_file ys) summary = (Inr (), filesystem w')"
    if "run chain lib (prepare ys video_title transcript_chunks) w = (Inr summary, w')"
    using run_effect [OF that] by (auto simp: prepare_def)
  show ?thesis
    using a b by blast
qed

lemma demo_round_trip:
  "json_loads demo_lib (json_dumps demo_lib False demo_summary) = Inr demo_summary"
  by (simp add: demo_lib_def)

theorem C6_saved_summary_loads_back_witness:
  "init demo_env (ascii ''v'') False = Inr (demo_ys\<lparr>title := [], chunks := []\<rparr>)
   \<and> json_loads demo_lib (json_dumps demo_lib False demo_summary) = Inr demo_summary
   \<and> run echo_chain demo_lib demo_ys demo_world
       = (Inr demo_summary, snd (run echo_chain demo_lib demo_ys demo_world))
   \<and> load_summary demo_lib demo_env
        (filesystem (snd (run echo_chain demo_lib demo_ys demo_world))) (ascii ''v'')
       = Inr (Some demo_summary)
   \<and> files (filesystem (snd (run echo_chain demo_lib demo_ys demo_world))) (ascii ''store/v'')
       = Some (ascii ''{summary}'')"
proof -
  let ?w = "snd (run echo_chain demo_lib demo_ys demo_world)"
  have h: "run echo_chain demo_lib demo_ys demo_world = (Inr demo_summary, ?w)"
    by (simp add: echo_run)
  have sf: "summary_file (demo_ys\<lparr>title := [], chunks := []\<rparr>) = ascii ''store/v''"
    by (simp add: demo_ys_def)
  have d: "json_dumps demo_lib False demo_summary = ascii ''{summary}''"
    by (simp add: demo_lib_def)
  note c = C6_saved_summary_loads_back [OF init_demo demo_round_trip,
      of empty_fs empty_fs echo_chain "ascii ''T''" spoken_chunks demo_world ?w,
      unfolded prepare_demo sf d]
  from c h have l: "load_summary demo_lib demo_env (filesystem ?w) (ascii ''v'') = Inr (Some demo_summary)"
    and f: "files (filesystem ?w) (ascii ''store/v'') = Some (ascii ''{summary}'')"
    by simp_all
  show ?thesis
    using init_demo demo_round_trip h l f by (intro conjI)
qed



section \<open>The question loop\<close>

lemma qa_loop_final: "\<not> running (pc c) \<Longrightarrow> qa_loop be detail c = c"
  by (simp add: qa_loop.simps)

lemma qa_loop_step: "running (pc c) \<Longrightarrow> qa_loop be detail c = qa_loop be detail (qa_step be detail c)"
  by (subst qa_loop.simps) simp

lemma strip_whitespace:
  assumes "list_all py_isspace s"
  shows "strip s = []"
proof -
  have "dropWhile py_isspace s = []"
    using assms by (simp add: list_all_iff)
  then show ?thesis
    by (simp only: strip_def rev.simps dropWhile.simps)
qed

lemma last_dropWhile: "dropWhile P xs \<noteq> [] \<Longrightarrow> last (dropWhile P xs) = last xs"
  by (induction xs) (auto split: if_splits)

lemma strip_ends:
  assumes "strip s \<noteq> []"
  shows "\<not> py_isspace (hd (strip s))" and "\<not> py_isspace (last (strip s))"
proof -
  define t where "t = dropWhile py_isspace s"
  define u where "u = dropWhile py_isspace (rev t)"
  have s: "strip s = rev u"
    by (simp add: strip_def t_def u_def)
  with assms have u: "u \<noteq> []" by simp
  then have t: "t \<noteq> []" by (auto simp: u_def)
  have "last (rev u) = hd u"
    using u by (simp add: last_rev)
  moreover have "\<not> py_isspace (hd u)"
    using u unfolding u_def by (rule hd_dropWhile)
  ultimately show "\<not> py_isspace (last (strip s))"
    by (simp add: s)
  have "hd (rev u) = last u"
    using u by (simp add: hd_rev)
  also have "\<dots> = last (rev t)"
    using u unfolding u_def by (rule last_dropWhile)
  also have "\<dots> = hd t"
    using t by (simp add: last_rev)
  finally have "hd (strip s) = hd t"
    by (simp add: s)
  moreover have "\<not> py_isspace (hd t)"
    using t unfolding t_def by (rule hd_dropWhile)
  ultimately show "\<not> py_isspace (hd (strip s))"
    by simp
qed

lemma strip_idem: "strip (strip s) = strip s"
proof (cases "strip s = []")
  case True
  have "strip [] = []"
    by (simp only: strip_def rev.simps dropWhile.simps)
  with True show ?thesis by simp
next
  case False
  let ?x = "strip s"
  from strip_ends [OF False] have h: "\<not> py_isspace (hd ?x)" and l: "\<not> py_isspace (last ?x)"
    by simp_all
  have a: "dropWhile py_isspace ?x = ?x"
    using h by (simp only: dropWhile_eq_self_iff) simp
  have "hd (rev ?x) = last ?x"
    using False by (simp add: hd_rev)
  with l have "\<not> py_isspace (hd (rev ?x))"
    by simp
  then have b: "dropWhile py_isspace (rev ?x) = rev ?x"
    by (simp only: dropWhile_eq_self_iff) simp
  have "strip ?x = rev (dropWhile py_isspace (rev (dropWhile py_isspace ?x)))"
    by (simp add: strip_def)
  also have "\<dots> = ?x"
    by (simp only: a b rev_rev_ident)
  finally show ?thesis .
qed

lemma step_awaiting_blank:
  assumes "pc c = AwaitingQuery" and "stdin c = line # rest" and "strip line = []"
  shows "qa_step be detail c =
           c\<lparr>pc := Terminated, stdin := rest, stdout := stdout c @ [ascii ''Query: '']\<rparr>"
  using assms by (simp add: qa_step_def)

lemma step_awaiting_query:
  assumes "pc c = AwaitingQuery" and "stdin c = line # rest" and "strip line \<noteq> []"
  shows "qa_step be detail c =
           c\<lparr>pc := Answering (strip line), stdin := rest,
             stdout := stdout c @ [ascii ''Query: '']\<rparr>"
  using assms by (simp add: qa_step_def)

lemma step_answering:
  assumes "pc c = Answering query" and "run_query be (yqa c) query = (Inr answer, s')"
  shows "qa_step be detail c =
           c\<lparr>pc := AwaitingQuery, yqa := s',
             stdout := stdout c @ [ascii ''Answer: '', answer @ [10, 10]]
               @ (if detail then map source_line (get_source be s') @ [[10]] else []),
             asked := asked c @ [query]\<rparr>"
  using assms by (simp add: qa_step_def)

lemma step_to_terminated:
  assumes "running (pc c)" and "pc (qa_step be detail c) = Terminated"
  shows "pc c = AwaitingQuery \<and> (\<exists>line rest. stdin c = line # rest \<and> strip line = [])"
  using assms
  by (cases "pc c")
     (auto simp: qa_step_def Let_def split: list.splits prod.splits sum.splits if_splits)

lemma step_to_answering:
  assumes "running (pc c)" and "pc (qa_step be detail c) = Answering query"
  shows "pc c = AwaitingQuery
       \<and> (\<exists>line rest. stdin c = line # rest \<and> query = strip line \<and> query \<noteq> [])"
  using assms
  by (cases "pc c")
     (auto simp: qa_step_def Let_def split: list.splits prod.splits sum.splits if_splits)

text \<open>What the loop hands to the backend.\<close>

lemma qa_loop_asked:
  assumes "case pc c of Answering q \<Rightarrow> q \<noteq> [] \<and> strip q = q | _ \<Rightarrow> True"
  shows "\<exists>new. asked (qa_loop be detail c) = asked c @ new
           \<and> list_all (\<lambda>q. q \<noteq> [] \<and> strip q = q) new"
  using assms
proof (induction be detail c rule: qa_loop.induct)
  case (1 be detail c)
  show ?case
  proof (cases "running (pc c)")
    case False
    then show ?thesis by (simp add: qa_loop_final)
  next
    case True
    let ?c = "qa_step be detail c"
    have inv: "case pc ?c of Answering q \<Rightarrow> q \<noteq> [] \<and> strip q = q | _ \<Rightarrow> True"
    proof (cases "pc ?c")
      case (Answering q)
      from step_to_answering [OF True Answering] show ?thesis
        by (auto simp: Answering strip_idem)
    qed simp_all
    from "1.IH" [OF True inv] obtain new where
      n: "asked (qa_loop be detail ?c) = asked ?c @ new"
      and l: "list_all (\<lambda>q. q \<noteq> [] \<and> strip q = q) new"
      by blast
    have "\<exists>pre. asked ?c = asked c @ pre \<and> list_all (\<lambda>q. q \<noteq> [] \<and> strip q = q) pre"
      using "1.prems"
      by (cases "pc c")
         (auto simp: qa_step_def Let_def split: list.splits prod.splits sum.splits)
    then obtain pre where p: "asked ?c = asked c @ pre"
      and lp: "list_all (\<lambda>q. q \<noteq> [] \<and> strip q = q) pre"
      by blast
    have "asked (qa_loop be detail c) = asked c @ (pre @ new)"
      using n p by (simp add: qa_loop_step [OF True])
    moreover have "list_all (\<lambda>q. q \<noteq> [] \<and> strip q = q) (pre @ new)"
      using l lp by simp
    ultimately show ?thesis by blast
  qed
qed

lemma qa_loop_terminated:
  "pc (qa_loop be detail c) = Terminated \<Longrightarrow>
   (case pc c of
      AwaitingQuery \<Rightarrow>
        \<exists>qs blank. stdin c = qs @ blank # stdin (qa_loop be detail c) \<and> strip blank = []
          \<and> list_all (\<lambda>q. strip q \<noteq> []) qs
          \<and> asked (qa_loop be detail c) = asked c @ map strip qs
    | Answering query \<Rightarrow>
        \<exists>qs blank. stdin c = qs @ blank # stdin (qa_loop be detail c) \<and> strip blank = []
          \<and> list_all (\<lambda>q. strip q \<noteq> []) qs
          \<and> asked (qa_loop be detail c) = asked c @ query # map strip qs
    | Terminated \<Rightarrow> qa_loop be detail c = c
    | Aborted e \<Rightarrow> False)"
proof (induction be detail c rule: qa_loop.induct)
  case (1 be detail c)
  let ?c = "qa_step be detail c"
  let ?f = "qa_loop be detail c"
  show ?case
  proof (cases "pc c")
    case AwaitingQuery
    then have run: "running (pc c)" by simp
    have fin: "?f = qa_loop be detail ?c"
      using run by (rule qa_loop_step)
    show ?thesis
    proof (cases "stdin c")
      case Nil
      then have "pc ?c = Aborted EOFError"
        using AwaitingQuery by (simp add: qa_step_def)
      then have "pc ?f = Aborted EOFError"
        by (simp add: fin qa_loop_final)
      with "1.prems" show ?thesis by simp
    next
      case (Cons line rest)
      show ?thesis
      proof (cases "strip line = []")
        case True
        from step_awaiting_blank [OF AwaitingQuery Cons True]
        have s: "?c = c\<lparr>pc := Terminated, stdin := rest, stdout := stdout c @ [ascii ''Query: '']\<rparr>" .
        then have "?f = ?c"
          by (simp add: fin qa_loop_final)
        with s have "stdin c = [] @ line # stdin ?f" "asked ?f = asked c @ map strip []"
          using Cons by simp_all
        then show ?thesis
          using AwaitingQuery True by (auto intro!: exI [of _ "[]"] exI [of _ line])
      next
        case False
        from step_awaiting_query [OF AwaitingQuery Cons False]
        have s: "?c = c\<lparr>pc := Answering (strip line), stdin := rest,
                        stdout := stdout c @ [ascii ''Query: '']\<rparr>" .
        then have p: "pc ?c = Answering (strip line)" by simp
        from "1.prems" have "pc (qa_loop be detail ?c) = Terminated"
          by (simp add: fin)
        from "1.IH" [OF run this] p obtain qs blank where
          a: "stdin ?c = qs @ blank # stdin (qa_loop be detail ?c)"
          and b: "strip blank = []" and l: "list_all (\<lambda>q. strip q \<noteq> []) qs"
          and k: "asked (qa_loop be detail ?c) = asked ?c @ strip line # map strip qs"
          by auto
        have "stdin c = (line # qs) @ blank # stdin ?f"
          using a s Cons by (simp add: fin)
        moreover have "list_all (\<lambda>q. strip q \<noteq> []) (line # qs)"
          using l False by simp
        moreover have "asked ?f = asked c @ map strip (line # qs)"
          using k s by (simp add: fin)
        ultimately show ?thesis
          using AwaitingQuery b by (auto intro!: exI [of _ "line # qs"] exI [of _ blank])
      qed
    qed
  next
    case (Answering query)
    then have run: "running (pc c)" by simp
    have fin: "?f = qa_loop be detail ?c"
      using run by (rule qa_loop_step)
    obtain r s' where rq: "run_query be (yqa c) query = (r, s')"
      by (cases "run_query be (yqa c) query")
    show ?thesis
    proof (cases r)
      case (Inl e)
      then have "pc ?c = Aborted e"
        using Answering rq by (simp add: qa_step_def)
      then have "pc ?f = Aborted e"
        by (simp add: fin qa_loop_final)
      with "1.prems" show ?thesis by simp
    next
      case (Inr answer)
      from step_answering [OF Answering rq [unfolded Inr]]
      have p: "pc ?c = AwaitingQuery" and i: "stdin ?c = stdin c"
        and k: "asked ?c = asked c @ [query]"
        by simp_all
      from "1.prems" have "pc (qa_loop be detail ?c) = Terminated"
        by (simp add: fin)
      from "1.IH" [OF run this] p obtain qs blank where
        a: "stdin ?c = qs @ blank # stdin (qa_loop be detail ?c)"
        and b: "strip blank = []" and l: "list_all (\<lambda>q. strip q \<noteq> []) qs"
        and k': "asked (qa_loop be detail ?c) = asked ?c @ map strip qs"
        by auto
      show ?thesis
        using Answering a b l k' i k
        by (auto simp: fin intro!: exI [of _ qs] exI [of _ blank])
    qed
  next
    case Terminated
    then show ?thesis by (simp add: qa_loop_final)
  next
    case (Aborted e)
    with "1.prems" show ?thesis by (simp add: qa_loop_final)
  qed
qed

lemma answer_marker:
  "ascii ''Query: '' \<noteq> ascii ''Answer: ''"
  "answer @ [10, 10] \<noteq> ascii ''Answer: ''"
  "[10] \<noteq> ascii ''Answer: ''"
  "source_line x \<noteq> ascii ''Answer: ''"
proof -
  have l: "last (ascii ''Answer: '') = 32"
    by (simp add: ascii_def)
  show "ascii ''Query: '' \<noteq> ascii ''Answer: ''"
    by (simp add: ascii_def)
  show "answer @ [10, 10] \<noteq> ascii ''Answer: ''"
  proof
    assume "answer @ [10, 10] = ascii ''Answer: ''"
    then have "last (answer @ [10, 10]) = last (ascii ''Answer: '')"
      by (rule arg_cong)
    with l show False by simp
  qed
  show "[10] \<noteq> ascii ''Answer: ''"
    by (simp add: ascii_def)
  have "last (source_line x) = 10"
    by (cases x) (simp add: source_line_def)
  with l show "source_line x \<noteq> ascii ''Answer: ''"
    by auto
qed

lemma count_no_marker:
  "count_list (map source_line xs) (ascii ''Answer: '') = 0"
  by (induction xs) (simp_all add: answer_marker)

lemma qa_loop_runs:
  assumes ok: "\<forall>s q. \<exists>a s'. run_query be s q = (Inr a, s')"
  shows "pc c = AwaitingQuery \<Longrightarrow> stdin c = qs @ blank # rest
     \<Longrightarrow> list_all (\<lambda>q. strip q \<noteq> []) qs \<Longrightarrow> strip blank = []
     \<Longrightarrow> pc (qa_loop be detail c) = Terminated
       \<and> stdin (qa_loop be detail c) = rest
       \<and> asked (qa_loop be detail c) = asked c @ map strip qs
       \<and> count_list (stdout (qa_loop be detail c)) (ascii ''Answer: '')
           = count_list (stdout c) (ascii ''Answer: '') + length qs"
proof (induction qs arbitrary: c)
  case Nil
  then have i: "stdin c = blank # rest" by simp
  let ?c = "c\<lparr>pc := Terminated, stdin := rest, stdout := stdout c @ [ascii ''Query: '']\<rparr>"
  have "qa_step be detail c = ?c"
    using Nil.prems(1) i Nil.prems(4) by (rule step_awaiting_blank)
  then have "qa_loop be detail c = ?c"
    using Nil.prems(1) by (simp add: qa_loop_step qa_loop_final)
  then show ?case
    by (simp add: answer_marker)
next
  case (Cons q qs)
  then have i: "stdin c = q # (qs @ blank # rest)" and nb: "strip q \<noteq> []" by simp_all
  let ?c1 = "c\<lparr>pc := Answering (strip q), stdin := qs @ blank # rest,
                stdout := stdout c @ [ascii ''Query: '']\<rparr>"
  have s1: "qa_step be detail c = ?c1"
    using Cons.prems(1) i nb by (rule step_awaiting_query)
  from ok obtain a s' where rq: "run_query be (yqa ?c1) (strip q) = (Inr a, s')"
    by blast
  have p1: "pc ?c1 = Answering (strip q)" by simp
  let ?c2 = "qa_step be detail ?c1"
  note s2 = step_answering [OF p1 rq, of detail]
  have p2: "pc ?c2 = AwaitingQuery" and i2: "stdin ?c2 = qs @ blank # rest"
    and k2: "asked ?c2 = asked c @ [strip q]"
    by (simp_all add: s2)
  have o2: "count_list (stdout ?c2) (ascii ''Answer: '')
              = count_list (stdout c) (ascii ''Answer: '') + 1"
    by (simp add: s2 answer_marker count_no_marker)
  have "qa_loop be detail c = qa_loop be detail ?c2"
    using Cons.prems(1) by (simp add: qa_loop_step s1)
  moreover from Cons.prems(3) have "list_all (\<lambda>q. strip q \<noteq> []) qs" by simp
  note Cons.IH [OF p2 i2 this Cons.prems(4)]
  ultimately show ?case
    by (simp add: k2 o2)
qed

lemma step_refines_spec:
  assumes "running (pc c)" and "spec_of (pc (qa_step be detail c)) = Some t"
  shows "\<exists>s ev. spec_of (pc c) = Some s \<and> event_of c = Some ev \<and> spec_next s ev = Some t"
  using assms
  by (cases "pc c")
     (auto simp: qa_step_def event_of_def Let_def
           split: list.splits prod.splits sum.splits if_splits)

text \<open>
  C8. The loop follows the state machine: every step of the loop that is not left by an
  exception is a transition of the spec's machine on the event at hand. Awaiting a query,
  a line that is empty after stripping leads to \<open>Terminated\<close> with no answer, and any other
  line leads to \<open>Answering\<close> with the stripped line. In \<open>Answering\<close>, a backend that answers is asked once, exactly
  its answer is printed, and the loop awaits the next query. A step reaches \<open>Terminated\<close>
  only from \<open>AwaitingQuery\<close> on a line that is empty after stripping. Over the whole
  loop: when it terminates, the lines it read are non-empty queries followed by one empty
  line, and the backend was asked exactly those queries in order; and on such input, with
  a backend that always answers, the loop does terminate, leaves the lines after the empty
  one unread, and has printed one answer for each query.
\<close>

theorem C8_qa_state_machine:
  "(running (pc ch) \<and> spec_of (pc (qa_step be detail ch)) = Some t
      \<longrightarrow> (\<exists>s ev. spec_of (pc ch) = Some s \<and> event_of ch = Some ev \<and> spec_next s ev = Some t))
   \<and> (pc ca = AwaitingQuery \<and> stdin ca = la # ra \<and> strip la = []
      \<longrightarrow> qa_step be detail ca =
            ca\<lparr>pc := Terminated, stdin := ra, stdout := stdout ca @ [ascii ''Query: '']\<rparr>)
   \<and> (pc cb = AwaitingQuery \<and> stdin cb = lb # rb \<and> strip lb \<noteq> []
      \<longrightarrow> qa_step be detail cb =
            cb\<lparr>pc := Answering (strip lb), stdin := rb,
               stdout := stdout cb @ [ascii ''Query: '']\<rparr>)
   \<and> (pc cc = Answering query \<and> run_query be (yqa cc) query = (Inr answer, s')
      \<longrightarrow> qa_step be detail cc =
            cc\<lparr>pc := AwaitingQuery, yqa := s',
               stdout := stdout cc @ [ascii ''Answer: '', answer @ [10, 10]]
                 @ (if detail then map source_line (get_source be s') @ [[10]] else []),
               asked := asked cc @ [query]\<rparr>)
   \<and> (running (pc cd) \<and> pc (qa_step be detail cd) = Terminated
      \<longrightarrow> pc cd = AwaitingQuery \<and> (\<exists>line rest. stdin cd = line # rest \<and> strip line = []))
   \<and> (pc ce = AwaitingQuery \<and> pc (qa_loop be detail ce) = Terminated
      \<longrightarrow> (\<exists>qs blank. stdin ce = qs @ blank # stdin (qa_loop be detail ce)
             \<and> strip blank = [] \<and> list_all (\<lambda>q. strip q \<noteq> []) qs
             \<and> asked (qa_loop be detail ce) = asked ce @ map strip qs))
   \<and> (pc cf = AwaitingQuery \<and> stdin cf = qs @ blank # rest
        \<and> list_all (\<lambda>q. strip q \<noteq> []) qs \<and> strip blank = []
        \<and> (\<forall>s q. \<exists>a t. run_query be s q = (Inr a, t))
      \<longrightarrow> pc (qa_loop be detail cf) = Terminated
        \<and> stdin (qa_loop be detail cf) = rest
        \<and> asked (qa_loop be detail cf) = asked cf @ map strip qs
        \<and> count_list (stdout (qa_loop be detail cf)) (ascii ''Answer: '')
            = count_list (stdout cf) (ascii ''Answer: '') + length qs)"
proof (intro conjI impI)
  show "\<exists>s ev. spec_of (pc ch) = Some s \<and> event_of ch = Some ev \<and> spec_next s ev = Some t"
    if "running (pc ch) \<and> spec_of (pc (qa_step be detail ch)) = Some t"
    using that step_refines_spec by blast
  show "qa_step be detail ca =
            ca\<lparr>pc := Terminated, stdin := ra, stdout := stdout ca @ [ascii ''Query: '']\<rparr>"
    if "pc ca = AwaitingQuery \<and> stdin ca = la # ra \<and> strip la = []"
    using that step_awaiting_blank by blast
  show "qa_step be detail cb =
            cb\<lparr>pc := Answering (strip lb), stdin := rb,
               stdout := stdout cb @ [ascii ''Query: '']\<rparr>"
    if "pc cb = AwaitingQuery \<and> stdin cb = lb # rb \<and> strip lb \<noteq> []"
    using that step_awaiting_query by blast
  show "qa_step be detail cc =
            cc\<lparr>pc := AwaitingQuery, yqa := s',
               stdout := stdout cc @ [ascii ''Answer: '', answer @ [10, 10]]
                 @ (if detail then map source_line (get_source be s') @ [[10]] else []),
               asked := asked cc @ [query]\<rparr>"
    if "pc cc = Answering query \<and> run_query be (yqa cc) query = (Inr answer, s')"
    using that by (intro step_answering) simp_all
  assume a4: "running (pc cd) \<and> pc (qa_step be detail cd) = Terminated"
  then show "pc cd = AwaitingQuery" "\<exists>line rest. stdin cd = line # rest \<and> strip line = []"
    using step_to_terminated [of cd be detail] by blast+
next
  assume "pc ce = AwaitingQuery \<and> pc (qa_loop be detail ce) = Terminated"
  then show "\<exists>qs blank. stdin ce = qs @ blank # stdin (qa_loop be detail ce)
             \<and> strip blank = [] \<and> list_all (\<lambda>q. strip q \<noteq> []) qs
             \<and> asked (qa_loop be detail ce) = asked ce @ map strip qs"
    using qa_loop_terminated [of be detail ce] by simp
next
  assume a6: "pc cf = AwaitingQuery \<and> stdin cf = qs @ blank # rest
        \<and> list_all (\<lambda>q. strip q \<noteq> []) qs \<and> strip blank = []
        \<and> (\<forall>s q. \<exists>a t. run_query be s q = (Inr a, t))"
  then have ok: "\<forall>s q. \<exists>a t. run_query be s q = (Inr a, t)" by blast
  from a6 qa_loop_runs [OF ok, of cf qs blank rest detail]
  show "pc (qa_loop be detail cf) = Terminated"
    "stdin (qa_loop be detail cf) = rest"
    "asked (qa_loop be detail cf) = asked cf @ map strip qs"
    "count_list (stdout (qa_loop be detail cf)) (ascii ''Answer: '')
            = count_list (stdout cf) (ascii ''Answer: '') + length qs"
    by blast+
qed

lemma demo_strip:
  "strip (ascii ''  '') = []"
  "strip (ascii '' hi '') = ascii ''hi''"
  "strip [] = []"
  "list_all py_isspace (ascii ''  '')"
  "ascii ''hi'' \<noteq> []"
  by (simp_all add: strip_def ascii_def py_isspace_def)

lemma echo_answers:
  "run_query echo_backend s q = (Inr (ascii ''re: '' @ q), Suc s)"
  "get_source echo_backend s = [(ascii ''0.9'', ascii ''v-0'', ascii ''0:00'', ascii ''A'')]"
  by (simp_all add: echo_backend_def)

lemma echo_total: "\<forall>s q. \<exists>a t. run_query echo_backend s q = (Inr a, t)"
  by (simp add: echo_answers)

theorem C8_qa_state_machine_witness:
  "running (pc query_conf)
   \<and> spec_of (pc (qa_step echo_backend True query_conf)) = Some SpecAnswering
   \<and> (\<exists>s ev. spec_of (pc query_conf) = Some s \<and> event_of query_conf = Some ev
         \<and> spec_next s ev = Some SpecAnswering)
   \<and> qa_step echo_backend True blank_conf =
     blank_conf\<lparr>pc := Terminated, stdin := [ascii ''late''], stdout := [ascii ''Query: '']\<rparr>
   \<and> qa_step echo_backend True query_conf =
       query_conf\<lparr>pc := Answering (ascii ''hi''), stdin := [[], ascii ''late''],
                  stdout := [ascii ''Query: '']\<rparr>
   \<and> qa_step echo_backend True answering_conf =
       answering_conf\<lparr>pc := AwaitingQuery, yqa := 1,
         stdout := [ascii ''Query: '', ascii ''Answer: '', ascii ''re: '' @ ascii ''hi'' @ [10, 10],
                    source_line (ascii ''0.9'', ascii ''v-0'', ascii ''0:00'', ascii ''A''), [10]],
         asked := [ascii ''hi'']\<rparr>
   \<and> pc (qa_loop echo_backend True query_conf) = Terminated
   \<and> stdin (qa_loop echo_backend True query_conf) = [ascii ''late'']
   \<and> asked (qa_loop echo_backend True query_conf) = [ascii ''hi'']
   \<and> count_list (stdout (qa_loop echo_backend True query_conf)) (ascii ''Answer: '') = 1"
proof -
  have b: "pc blank_conf = AwaitingQuery" "stdin blank_conf = ascii ''  '' # [ascii ''late'']"
    "stdout blank_conf = []"
    by (simp_all add: blank_conf_def)
  have q: "pc query_conf = AwaitingQuery"
    "stdin query_conf = ascii '' hi '' # [[], ascii ''late'']"
    "stdin query_conf = [ascii '' hi ''] @ [] # [ascii ''late'']"
    "stdout query_conf = []" "asked query_conf = []"
    by (simp_all add: query_conf_def)
  have a: "pc answering_conf = Answering (ascii ''hi'')" "yqa answering_conf = 0"
    "stdout answering_conf = [ascii ''Query: '']" "asked answering_conf = []"
    by (simp_all add: answering_conf_def)
  note t = C8_qa_state_machine [where ch = query_conf and t = SpecAnswering
      and ca = blank_conf and la = "ascii ''  ''"
      and ra = "[ascii ''late'']" and be = echo_backend and detail = True
      and cb = query_conf and lb = "ascii '' hi ''" and rb = "[[], ascii ''late'']"
      and cc = answering_conf and query = "ascii ''hi''"
      and answer = "ascii ''re: '' @ ascii ''hi''" and s' = 1
      and cd = blank_conf and ce = query_conf and cf = query_conf
      and qs = "[ascii '' hi '']" and blank = "[]" and rest = "[ascii ''late'']"]
  from t b demo_strip(1) have 1: "qa_step echo_backend True blank_conf =
     blank_conf\<lparr>pc := Terminated, stdin := [ascii ''late''], stdout := [ascii ''Query: '']\<rparr>"
    by simp
  from t q demo_strip(2,5) have 2: "qa_step echo_backend True query_conf =
       query_conf\<lparr>pc := Answering (ascii ''hi''), stdin := [[], ascii ''late''],
                  stdout := [ascii ''Query: '']\<rparr>"
    by simp
  from t a have 3: "qa_step echo_backend True answering_conf =
       answering_conf\<lparr>pc := AwaitingQuery, yqa := 1,
         stdout := [ascii ''Query: '', ascii ''Answer: '', ascii ''re: '' @ ascii ''hi'' @ [10, 10],
                    source_line (ascii ''0.9'', ascii ''v-0'', ascii ''0:00'', ascii ''A''), [10]],
         asked := [ascii ''hi'']\<rparr>"
    by (simp add: echo_answers)
  from t q demo_strip(2,3,5) echo_total
  have 4: "pc (qa_loop echo_backend True query_conf) = Terminated
   \<and> stdin (qa_loop echo_backend True query_conf) = [ascii ''late'']
   \<and> asked (qa_loop echo_backend True query_conf) = [ascii ''hi'']
   \<and> count_list (stdout (qa_loop echo_backend True query_conf)) (ascii ''Answer: '') = 1"
    by simp
  have r: "running (pc query_conf)"
    by (simp add: q)
  have 5: "spec_of (pc (qa_step echo_backend True query_conf)) = Some SpecAnswering"
    by (simp add: 2)
  from t r 5 have 6: "\<exists>s ev. spec_of (pc query_conf) = Some s \<and> event_of query_conf = Some ev
         \<and> spec_next s ev = Some SpecAnswering"
    by blast
  show ?thesis
    using r 5 6 1 2 3 4 by (intro conjI) simp_all
qed

lemma qa_loop_blank:
  assumes "pc c = AwaitingQuery" and "stdin c = line # rest" and "strip line = []"
  shows "qa_loop be detail c =
           c\<lparr>pc := Terminated, stdin := rest, stdout := stdout c @ [ascii ''Query: '']\<rparr>"
proof -
  from step_awaiting_blank [OF assms]
  have "qa_step be detail c =
          c\<lparr>pc := Terminated, stdin := rest, stdout := stdout c @ [ascii ''Query: '']\<rparr>" .
  then show ?thesis
    using assms(1) by (simp add: qa_loop_step qa_loop_final)
qed

lemma stripped_ends: "q \<noteq> [] \<and> strip q = q \<Longrightarrow> \<not> py_isspace (hd q) \<and> \<not> py_isspace (last q)"
  using strip_ends [of q] by auto

text \<open>
  C10. A line of white space only strips to the empty string; on it the loop does the same
  step as on the empty line and terminates. Every query the loop hands to the backend is
  non-empty and stripped, with no white space at its beginning or end, and is the stripped
  form of the line read. Stripping twice is stripping once.
\<close>

theorem C10_whitespace_is_empty_input:
  "(list_all py_isspace line
      \<longrightarrow> strip line = []
        \<and> qa_step be detail (c\<lparr>pc := AwaitingQuery, stdin := line # rest\<rparr>)
            = qa_step be detail (c\<lparr>pc := AwaitingQuery, stdin := [] # rest\<rparr>)
        \<and> qa_loop be detail (c\<lparr>pc := AwaitingQuery, stdin := line # rest\<rparr>)
            = c\<lparr>pc := Terminated, stdin := rest, stdout := stdout c @ [ascii ''Query: '']\<rparr>)
   \<and> (pc cg = AwaitingQuery
      \<longrightarrow> (\<exists>new. asked (qa_loop be detail cg) = asked cg @ new
             \<and> list_all (\<lambda>q. q \<noteq> [] \<and> strip q = q
                              \<and> \<not> py_isspace (hd q) \<and> \<not> py_isspace (last q)) new))
   \<and> (running (pc ca) \<and> pc (qa_step be detail ca) = Answering query
      \<longrightarrow> pc ca = AwaitingQuery
        \<and> (\<exists>line rest. stdin ca = line # rest \<and> query = strip line \<and> query \<noteq> []))
   \<and> strip (strip line) = strip line"
proof (intro conjI impI)
  assume w: "list_all py_isspace line"
  then show e: "strip line = []" by (rule strip_whitespace)
  have e0: "strip [] = []"
    by (rule strip_whitespace) simp
  let ?c = "c\<lparr>pc := AwaitingQuery, stdin := line # rest\<rparr>"
  let ?d = "c\<lparr>pc := AwaitingQuery, stdin := [] # rest\<rparr>"
  have "qa_step be detail ?c
        = ?c\<lparr>pc := Terminated, stdin := rest, stdout := stdout ?c @ [ascii ''Query: '']\<rparr>"
    by (rule step_awaiting_blank [OF _ _ e]) simp_all
  moreover have "qa_step be detail ?d
        = ?d\<lparr>pc := Terminated, stdin := rest, stdout := stdout ?d @ [ascii ''Query: '']\<rparr>"
    by (rule step_awaiting_blank [OF _ _ e0]) simp_all
  ultimately show "qa_step be detail ?c = qa_step be detail ?d"
    by simp
  have "qa_loop be detail ?c
        = ?c\<lparr>pc := Terminated, stdin := rest, stdout := stdout ?c @ [ascii ''Query: '']\<rparr>"
    by (rule qa_loop_blank [OF _ _ e]) simp_all
  then show "qa_loop be detail ?c
        = c\<lparr>pc := Terminated, stdin := rest, stdout := stdout c @ [ascii ''Query: '']\<rparr>"
    by simp
next
  assume "pc cg = AwaitingQuery"
  then have "case pc cg of Answering q \<Rightarrow> q \<noteq> [] \<and> strip q = q | _ \<Rightarrow> True"
    by simp
  from qa_loop_asked [OF this, of be detail] obtain new where
    n: "asked (qa_loop be detail cg) = asked cg @ new"
    and l: "list_all (\<lambda>q. q \<noteq> [] \<and> strip q = q) new"
    by blast
  from l have "list_all (\<lambda>q. q \<noteq> [] \<and> strip q = q
                              \<and> \<not> py_isspace (hd q) \<and> \<not> py_isspace (last q)) new"
    using stripped_ends by (auto simp: list_all_iff)
  with n show "\<exists>new. asked (qa_loop be detail cg) = asked cg @ new
             \<and> list_all (\<lambda>q. q \<noteq> [] \<and> strip q = q
                              \<and> \<not> py_isspace (hd q) \<and> \<not> py_isspace (last q)) new"
    by blast
next
  assume "running (pc ca) \<and> pc (qa_step be detail ca) = Answering query"
  then show "pc ca = AwaitingQuery"
    "\<exists>line rest. stdin ca = line # rest \<and> query = strip line \<and> query \<noteq> []"
    using step_to_answering [of ca be detail query] by blast+
next
  show "strip (strip line) = strip line"
    by (rule strip_idem)
qed

theorem C10_whitespace_is_empty_input_witness:
  "list_all py_isspace (ascii ''  '')
   \<and> strip (ascii ''  '') = []
   \<and> qa_loop echo_backend True blank_conf =
       blank_conf\<lparr>pc := Terminated, stdin := [ascii ''late''], stdout := [ascii ''Query: '']\<rparr>
   \<and> pc (qa_step echo_backend True query_conf) = Answering (ascii ''hi'')
   \<and> strip (ascii '' hi '') = ascii ''hi''
   \<and> (\<exists>new. asked (qa_loop echo_backend True query_conf) = asked query_conf @ new
         \<and> list_all (\<lambda>q. q \<noteq> [] \<and> strip q = q
                          \<and> \<not> py_isspace (hd q) \<and> \<not> py_isspace (last q)) new)"
proof -
  have b: "blank_conf\<lparr>pc := AwaitingQuery, stdin := ascii ''  '' # [ascii ''late'']\<rparr> = blank_conf"
    "stdout blank_conf = []"
    by (simp_all add: blank_conf_def)
  have q: "pc query_conf = AwaitingQuery" "running (pc query_conf)"
    by (simp_all add: query_conf_def)
  have s: "pc (qa_step echo_backend True query_conf) = Answering (ascii ''hi'')"
    by (simp add: qa_step_def query_conf_def demo_strip)
  note t = C10_whitespace_is_empty_input [where line = "ascii ''  ''" and be = echo_backend
      and detail = True and c = blank_conf and rest = "[ascii ''late'']"
      and cg = query_conf and ca = query_conf and query = "ascii ''hi''"]
  from t demo_strip(4) have 1: "qa_loop echo_backend True blank_conf =
       blank_conf\<lparr>pc := Terminated, stdin := [ascii ''late''], stdout := [ascii ''Query: '']\<rparr>"
    unfolding b by simp
  from t q(1) have 2: "\<exists>new. asked (qa_loop echo_backend True query_conf) = asked query_conf @ new
         \<and> list_all (\<lambda>q. q \<noteq> [] \<and> strip q = q
                          \<and> \<not> py_isspace (hd q) \<and> \<not> py_isspace (last q)) new"
    by blast
  show ?thesis
    using demo_strip(1,2,4) 1 2 s by (intro conjI)
qed

end
